theory Spec2Isabelle
  imports Main
begin

section \<open>The LRU cache of \<^verbatim>\<open>go_example_0e3ffb.go\<close>\<close>

text \<open>
  The Go program keeps its entries as heap objects linked by \<^verbatim>\<open>prev\<close>/\<^verbatim>\<open>next\<close>
  pointers, and a map from keys to pointers to the same objects. The pointers alias
  (an entry is reached from the map, from its neighbours and from \<^verbatim>\<open>head\<close>/\<^verbatim>\<open>tail\<close>),
  so the entries live in an explicit store: a list of entry records in which the address
  of an entry is its index. A pointer is an \<open>addr option\<close>, \<open>None\<close> being \<^verbatim>\<open>nil\<close>.
  Allocating with \<^verbatim>\<open>&cacheEntry{...}\<close> appends to the store; Go never frees an object
  that is still referenced, and an unreferenced one cannot be observed, so entries are
  never removed from the store.

  The fields \<^verbatim>\<open>capacity\<close> and \<^verbatim>\<open>size\<close> are Go \<^verbatim>\<open>int\<close>s, modelled as \<open>int\<close>. The
  only arithmetic on them is \<^verbatim>\<open>size++\<close> and \<^verbatim>\<open>size--\<close>, and \<^verbatim>\<open>size++\<close> could only
  wrap around with as many entries alive at once as the largest \<^verbatim>\<open>int\<close>. Each of them
  holds a distinct key and two pointers, so that many do not fit into the address space
  of the platform (\<open>2^63\<close> entries of at least 24 bytes with 64-bit \<^verbatim>\<open>int\<close>, \<open>2^31\<close>
  entries of at least 12 bytes with 32-bit \<^verbatim>\<open>int\<close>): no run of the program reaches a
  wrap-around, and running out of memory ends the program instead.

  The mutex is taken at the start of \<^verbatim>\<open>Get\<close> and \<^verbatim>\<open>Put\<close> and released when they
  return; the model is the sequential behaviour of one call under the lock.
\<close>

subsection \<open>Data\<close>

type_synonym addr = nat

record ('k, 'v) cacheEntry =
  key :: 'k
  "value" :: 'v
  prev :: "addr option"
  "next" :: "addr option"

record ('k, 'v) LRUCache =
  capacity :: int
  size_c :: int
  cacheMap :: "('k \<times> addr) list"
  head :: "addr option"
  tail :: "addr option"
  store :: "('k, 'v) cacheEntry list"

datatype error = Panic string

subsection \<open>Go maps\<close>

text \<open>
  A Go \<^verbatim>\<open>map[K]\<close> finds, replaces and deletes the element whose key is \<^verbatim>\<open>==\<close> to the
  given key. On a \<^verbatim>\<open>comparable\<close> key type \<^verbatim>\<open>==\<close> need not be reflexive: a floating-point
  NaN is not equal to itself, so an element stored under it is never found again, a
  further assignment under it adds another element, and \<^verbatim>\<open>delete\<close> with it removes
  nothing. The relation \<^verbatim>\<open>==\<close> of the key type is fixed by the instantiation of the
  generic type; it is the parameter \<open>eq\<close>. A map is the list of its elements, a new
  element going to the end, and \<^verbatim>\<open>len\<close> of the map is the length of the list.
\<close>

fun map_index :: "('k \<Rightarrow> 'k \<Rightarrow> bool) \<Rightarrow> ('k \<times> 'a) list \<Rightarrow> 'k \<Rightarrow> 'a option" where
  "map_index eq [] k = None"
| "map_index eq (e # m) k = (if eq (fst e) k then Some (snd e) else map_index eq m k)"

fun map_assign :: "('k \<Rightarrow> 'k \<Rightarrow> bool) \<Rightarrow> ('k \<times> 'a) list \<Rightarrow> 'k \<Rightarrow> 'a \<Rightarrow> ('k \<times> 'a) list" where
  "map_assign eq [] k x = [(k, x)]"
| "map_assign eq (e # m) k x = (if eq (fst e) k then (k, x) # m else e # map_assign eq m k x)"

fun map_delete :: "('k \<Rightarrow> 'k \<Rightarrow> bool) \<Rightarrow> ('k \<times> 'a) list \<Rightarrow> 'k \<Rightarrow> ('k \<times> 'a) list" where
  "map_delete eq [] k = []"
| "map_delete eq (e # m) k = (if eq (fst e) k then m else e # map_delete eq m k)"

text \<open>
  The theorems are about key types on which \<^verbatim>\<open>==\<close> holds between no two different
  values: a value of \<open>'k\<close> is a key up to \<^verbatim>\<open>==\<close>, so that keys which differ only in
  their representation (the floating-point zeros \<open>+0\<close> and \<open>-0\<close>) are one value. No
  operation of the cache gives a stored key back, so the program cannot tell them
  apart. That a key is equal to itself is not assumed.
\<close>

definition key_equality :: "('k \<Rightarrow> 'k \<Rightarrow> bool) \<Rightarrow> bool" where
  "key_equality eq \<longleftrightarrow> (\<forall>k k'. eq k k' \<longrightarrow> k = k')"

subsection \<open>Operations\<close>

definition NewLRUCache :: "int \<Rightarrow> error + ('k, 'v) LRUCache" where
  "NewLRUCache cap =
     (if cap \<le> 0 then Inl (Panic ''Cache capacity must be greater than 0'')
      else Inr \<lparr>capacity = cap, size_c = 0, cacheMap = [],
                head = None, tail = None, store = []\<rparr>)"

text \<open>
  \<^verbatim>\<open>remove\<close>: each statement reads the store as the statements before it left it.
\<close>

definition remove :: "addr \<Rightarrow> ('k, 'v) LRUCache \<Rightarrow> ('k, 'v) LRUCache" where
  "remove entry c =
     (let c1 = (case prev (store c ! entry) of
                  Some p \<Rightarrow> c\<lparr>store := (store c)[p := (store c ! p)\<lparr>next := next (store c ! entry)\<rparr>]\<rparr>
                | None \<Rightarrow> c\<lparr>head := next (store c ! entry)\<rparr>);
          c2 = (case next (store c1 ! entry) of
                  Some n \<Rightarrow> c1\<lparr>store := (store c1)[n := (store c1 ! n)\<lparr>prev := prev (store c1 ! entry)\<rparr>]\<rparr>
                | None \<Rightarrow> c1\<lparr>tail := prev (store c1 ! entry)\<rparr>);
          c3 = c2\<lparr>store := (store c2)[entry := (store c2 ! entry)\<lparr>next := None\<rparr>]\<rparr>
      in c3\<lparr>store := (store c3)[entry := (store c3 ! entry)\<lparr>prev := None\<rparr>]\<rparr>)"

definition addFront :: "addr \<Rightarrow> ('k, 'v) LRUCache \<Rightarrow> ('k, 'v) LRUCache" where
  "addFront entry c =
     (let c1 = c\<lparr>store := (store c)[entry := (store c ! entry)\<lparr>next := head c\<rparr>]\<rparr>;
          c2 = c1\<lparr>store := (store c1)[entry := (store c1 ! entry)\<lparr>prev := None\<rparr>]\<rparr>;
          c3 = (case head c2 of
                  Some h \<Rightarrow> c2\<lparr>store := (store c2)[h := (store c2 ! h)\<lparr>prev := Some entry\<rparr>]\<rparr>
                | None \<Rightarrow> c2);
          c4 = c3\<lparr>head := Some entry\<rparr>
      in (if tail c4 = None then c4\<lparr>tail := Some entry\<rparr> else c4))"

definition moveToFront :: "addr \<Rightarrow> ('k, 'v) LRUCache \<Rightarrow> ('k, 'v) LRUCache" where
  "moveToFront entry c =
     (if Some entry = head c then c else addFront entry (remove entry c))"

definition removeTail :: "('k \<Rightarrow> 'k \<Rightarrow> bool) \<Rightarrow> ('k, 'v) LRUCache \<Rightarrow> ('k, 'v) LRUCache" where
  "removeTail eq c =
     (case tail c of
        None \<Rightarrow> c
      | Some t \<Rightarrow>
          (let oldTailKey = key (store c ! t);
               c1 = remove t c;
               c2 = c1\<lparr>cacheMap := map_delete eq (cacheMap c1) oldTailKey\<rparr>
           in c2\<lparr>size_c := size_c c2 - 1\<rparr>))"

text \<open>
  \<^verbatim>\<open>Get\<close> returns the pair of the Go function and the cache after the call. The zero
  value of the type \<^verbatim>\<open>V\<close> is fixed by the instantiation of the generic type; it is the
  parameter \<open>zeroValue\<close>.
\<close>

definition Get :: "('k \<Rightarrow> 'k \<Rightarrow> bool) \<Rightarrow> 'v \<Rightarrow> 'k \<Rightarrow> ('k, 'v) LRUCache
                     \<Rightarrow> ('v \<times> bool) \<times> ('k, 'v) LRUCache" where
  "Get eq zeroValue k c =
     (case map_index eq (cacheMap c) k of
        Some entry \<Rightarrow>
          (let c1 = moveToFront entry c in ((value (store c1 ! entry), True), c1))
      | None \<Rightarrow> ((zeroValue, False), c))"

text \<open>
  The statements of \<^verbatim>\<open>Put\<close> for a key that is not in the map, up to and including
  \<^verbatim>\<open>c.size++\<close>: the state in which \<^verbatim>\<open>Put\<close> tests \<^verbatim>\<open>c.size > c.capacity\<close>.
\<close>

definition putNew :: "('k \<Rightarrow> 'k \<Rightarrow> bool) \<Rightarrow> 'k \<Rightarrow> 'v \<Rightarrow> ('k, 'v) LRUCache \<Rightarrow> ('k, 'v) LRUCache" where
  "putNew eq k v c =
     (let newEntry = length (store c);
          c1 = c\<lparr>store := store c @ [\<lparr>key = k, value = v, prev = None, next = None\<rparr>]\<rparr>;
          c2 = c1\<lparr>cacheMap := map_assign eq (cacheMap c1) k newEntry\<rparr>;
          c3 = addFront newEntry c2
      in c3\<lparr>size_c := size_c c3 + 1\<rparr>)"

definition Put :: "('k \<Rightarrow> 'k \<Rightarrow> bool) \<Rightarrow> 'k \<Rightarrow> 'v \<Rightarrow> ('k, 'v) LRUCache \<Rightarrow> ('k, 'v) LRUCache" where
  "Put eq k v c =
     (case map_index eq (cacheMap c) k of
        Some entry \<Rightarrow>
          moveToFront entry (c\<lparr>store := (store c)[entry := (store c ! entry)\<lparr>value := v\<rparr>]\<rparr>)
      | None \<Rightarrow>
          (let c4 = putNew eq k v c
           in (if size_c c4 > capacity c4 then removeTail eq c4 else c4)))"

subsection \<open>Reachable states and the recency list\<close>

text \<open>
  The states a program can see: those of a cache made by \<^verbatim>\<open>NewLRUCache\<close> with
  capacity \<open>cap\<close>, after any sequence of \<^verbatim>\<open>Get\<close> and \<^verbatim>\<open>Put\<close> calls, on a key type
  whose \<^verbatim>\<open>==\<close> is \<open>eq\<close>.
\<close>

inductive reachable :: "('k \<Rightarrow> 'k \<Rightarrow> bool) \<Rightarrow> int \<Rightarrow> ('k, 'v) LRUCache \<Rightarrow> bool"
  for eq :: "'k \<Rightarrow> 'k \<Rightarrow> bool" and cap :: int where
  init: "NewLRUCache cap = Inr c \<Longrightarrow> reachable eq cap c"
| get: "reachable eq cap c \<Longrightarrow> reachable eq cap (snd (Get eq z k c))"
| put: "reachable eq cap c \<Longrightarrow> reachable eq cap (Put eq k v c)"

text \<open>
  An entry is in the recency list when it is reached from \<^verbatim>\<open>head\<close> along \<^verbatim>\<open>next\<close>.
\<close>

inductive inList :: "('k, 'v) LRUCache \<Rightarrow> addr \<Rightarrow> bool" for c :: "('k, 'v) LRUCache" where
  first: "head c = Some a \<Longrightarrow> inList c a"
| step: "inList c a \<Longrightarrow> next (store c ! a) = Some b \<Longrightarrow> inList c b"

text \<open>
  The same walk as a function, head first: it follows \<^verbatim>\<open>next\<close> until \<^verbatim>\<open>nil\<close>, for
  at most as many steps as there are entries in the store (a list without a cycle
  cannot be longer). \<open>recency\<close> is the list of key/value pairs met on the way, most
  recently used first.
\<close>

fun walk :: "('k, 'v) cacheEntry list \<Rightarrow> nat \<Rightarrow> addr option \<Rightarrow> addr list" where
  "walk st 0 p = []"
| "walk st (Suc n) None = []"
| "walk st (Suc n) (Some a) = a # walk st n (next (st ! a))"

definition nodes :: "('k, 'v) LRUCache \<Rightarrow> addr list" where
  "nodes c = walk (store c) (length (store c)) (head c)"

definition recency :: "('k, 'v) LRUCache \<Rightarrow> ('k \<times> 'v) list" where
  "recency c = map (\<lambda>a. (key (store c ! a), value (store c ! a))) (nodes c)"

subsection \<open>The example of \<^verbatim>\<open>main\<close>\<close>

text \<open>
  \<^verbatim>\<open>main\<close> makes a cache of strings to ints with capacity 3 and puts \<^verbatim>\<open>a\<close>, \<^verbatim>\<open>b\<close>
  and \<^verbatim>\<open>c\<close> into it; its comments give the recency order after each call.
\<close>

definition cache_new :: "(string, int) LRUCache" where
  "cache_new = projr (NewLRUCache 3)"

definition cache_abc :: "(string, int) LRUCache" where
  "cache_abc = Put (=) ''c'' 3 (Put (=) ''b'' 2 (Put (=) ''a'' 1 cache_new))"

text \<open>
  The key type may also be \<^verbatim>\<open>float64\<close>. \<open>fkey\<close> has as much of it as the examples
  need, NaN and the whole numbers, and \<open>feq\<close> is its \<^verbatim>\<open>==\<close>. \<open>cache_nan\<close> is a cache
  of capacity 1 after \<^verbatim>\<open>Put(NaN, 1)\<close> and \<^verbatim>\<open>Put(2, 5)\<close>.
\<close>

datatype fkey = NaN | Num int

definition feq :: "fkey \<Rightarrow> fkey \<Rightarrow> bool" where
  "feq x y \<longleftrightarrow> x = y \<and> x \<noteq> NaN"

definition cache_nan1 :: "(fkey, int) LRUCache" where
  "cache_nan1 = Put feq NaN 1 (projr (NewLRUCache 1))"

definition cache_nan :: "(fkey, int) LRUCache" where
  "cache_nan = Put feq (Num 2) 5 cache_nan1"

subsection \<open>The invariant\<close>

text \<open>
  \<open>dseg st pr p as pl q\<close>: in the store \<open>st\<close>, the pointer \<open>p\<close> starts a doubly linked
  segment whose entries are \<open>as\<close> in order. The entry before the segment is \<open>pr\<close> (the
  \<^verbatim>\<open>prev\<close> of the first entry), the last entry of the segment is \<open>pl\<close> (\<open>pr\<close> when the
  segment is empty), and \<open>q\<close> is the \<^verbatim>\<open>next\<close> of the last entry. Every entry of the
  segment is an allocated address.
\<close>

fun dseg :: "('k, 'v) cacheEntry list \<Rightarrow> addr option \<Rightarrow> addr option \<Rightarrow> addr list
              \<Rightarrow> addr option \<Rightarrow> addr option \<Rightarrow> bool" where
  "dseg st pr p [] pl q = (p = q \<and> pl = pr)"
| "dseg st pr p (a # as) pl q =
     (p = Some a \<and> a < length st \<and> prev (st ! a) = pr \<and> dseg st (Some a) (next (st ! a)) as pl q)"

text \<open>
  A cache is well formed with entry list \<open>as\<close> when \<open>as\<close> is the whole list from
  \<^verbatim>\<open>head\<close> to \<^verbatim>\<open>tail\<close>, no entry occurs twice, and \<^verbatim>\<open>size\<close> is the length of the list.
  Every entry of the list has its element in the map. An element of the map points to
  an allocated entry that holds the element's key, no two elements point to the same
  entry, and an element whose key is equal to itself points into the list. No two
  entries of the list hold equal keys. The invariant adds the capacity bound.
\<close>

definition lru_wf :: "('k \<Rightarrow> 'k \<Rightarrow> bool) \<Rightarrow> ('k, 'v) LRUCache \<Rightarrow> addr list \<Rightarrow> bool" where
  "lru_wf eq c as \<longleftrightarrow>
     dseg (store c) None (head c) as (tail c) None \<and> distinct as \<and>
     (\<forall>a\<in>set as. (key (store c ! a), a) \<in> set (cacheMap c)) \<and>
     (\<forall>e\<in>set (cacheMap c). snd e < length (store c) \<and> fst e = key (store c ! snd e) \<and>
          (eq (fst e) (fst e) \<longrightarrow> snd e \<in> set as)) \<and>
     distinct (map snd (cacheMap c)) \<and>
     (\<forall>a\<in>set as. \<forall>b\<in>set as. eq (key (store c ! a)) (key (store c ! b)) \<longrightarrow> a = b) \<and>
     size_c c = int (length as)"

definition lru_inv :: "('k \<Rightarrow> 'k \<Rightarrow> bool) \<Rightarrow> ('k, 'v) LRUCache \<Rightarrow> int \<Rightarrow> addr list \<Rightarrow> bool" where
  "lru_inv eq c cap as \<longleftrightarrow>
     lru_wf eq c as \<and> capacity c = cap \<and> size_c c \<le> cap \<and> 1 \<le> cap"

section \<open>The invariant holds in every reachable state\<close>

subsection \<open>Linked segments\<close>

lemma dseg_append:
  "dseg st pr p (xs @ ys) pl q \<longleftrightarrow> (\<exists>pm m. dseg st pr p xs pm m \<and> dseg st pm m ys pl q)"
  by (induction xs arbitrary: pr p) auto

lemma dseg_cong:
  "dseg st pr p as pl q \<Longrightarrow> length st \<le> length st' \<Longrightarrow>
   \<forall>a\<in>set as. prev (st' ! a) = prev (st ! a) \<and> next (st' ! a) = next (st ! a) \<Longrightarrow>
   dseg st' pr p as pl q"
  by (induction as arbitrary: pr p) auto

lemma dseg_bound: "dseg st pr p as pl q \<Longrightarrow> \<forall>a\<in>set as. a < length st"
  by (induction as arbitrary: pr p) auto

lemma dseg_last: "dseg st pr p as pl q \<Longrightarrow> pl = (if as = [] then pr else Some (last as))"
  by (induction as arbitrary: pr p) auto

lemma dseg_walk: "dseg st pr p as pl None \<Longrightarrow> length as \<le> n \<Longrightarrow> walk st n p = as"
proof (induction as arbitrary: n p pr)
  case Nil
  then show ?case by (cases n) auto
next
  case (Cons a as)
  then show ?case by (cases n) auto
qed

lemma distinct_bound_length:
  "distinct as \<Longrightarrow> \<forall>a\<in>set as. a < (n::nat) \<Longrightarrow> length as \<le> n"
proof -
  assume d: "distinct as" and b: "\<forall>a\<in>set as. a < n"
  have "set as \<subseteq> {..<n}" using b by auto
  then have "card (set as) \<le> card {..<n}" by (intro card_mono) auto
  then show ?thesis using d by (simp add: distinct_card)
qed

subsection \<open>The list operations on a segment\<close>

lemma upd_key [simp]: "key e = key (st ! p) \<Longrightarrow> key (st[p := e] ! b) = key (st ! b)"
  by (cases "p < length st") (auto simp: nth_list_update list_update_beyond)

lemma upd_value [simp]: "value e = value (st ! p) \<Longrightarrow> value (st[p := e] ! b) = value (st ! b)"
  by (cases "p < length st") (auto simp: nth_list_update list_update_beyond)

lemma remove_frame:
  "length (store (remove a c)) = length (store c)"
  "key (store (remove a c) ! b) = key (store c ! b)"
  "value (store (remove a c) ! b) = value (store c ! b)"
  "cacheMap (remove a c) = cacheMap c"
  "size_c (remove a c) = size_c c"
  "capacity (remove a c) = capacity c"
  by (simp_all add: remove_def Let_def split: option.splits)

lemma dseg_snoc:
  "dseg st pr p (xs @ [a]) pl q \<longleftrightarrow>
     (\<exists>pm. dseg st pr p xs pm (Some a) \<and> a < length st \<and> prev (st ! a) = pm \<and>
           pl = Some a \<and> next (st ! a) = q)"
  by (auto simp: dseg_append)

lemma remove_dseg:
  assumes "dseg (store c) None (head c) (xs @ a # ys) (tail c) None"
    and "distinct (xs @ a # ys)"
  shows "dseg (store (remove a c)) None (head (remove a c)) (xs @ ys) (tail (remove a c)) None \<and>
         prev (store (remove a c) ! a) = None \<and> next (store (remove a c) ! a) = None"
proof -
  from assms(1) obtain pm where
    L: "dseg (store c) None (head c) xs pm (Some a)" and
    a: "a < length (store c)" "prev (store c ! a) = pm" and
    R: "dseg (store c) (Some a) (next (store c ! a)) ys (tail c) None"
    by (auto simp: dseg_append)
  show ?thesis
  proof (cases xs rule: rev_cases)
    case Nil
    show ?thesis
    proof (cases ys)
      case Nil
      with \<open>xs = []\<close> L a R show ?thesis by (auto simp: remove_def Let_def)
    next
      case (Cons n ys')
      with \<open>xs = []\<close> L a R assms(2) show ?thesis
        by (auto simp: remove_def Let_def nth_list_update elim!: dseg_cong)
    qed
  next
    case (snoc xs' p)
    show ?thesis
    proof (cases ys)
      case Nil
      with snoc L a R assms(2) show ?thesis
        by (auto simp: remove_def Let_def nth_list_update dseg_snoc elim!: dseg_cong)
    next
      case (Cons n ys')
      with snoc L a R assms(2) show ?thesis
        by (auto simp: remove_def Let_def nth_list_update dseg_snoc dseg_append elim!: dseg_cong)
    qed
  qed
qed

lemma addFront_frame:
  "length (store (addFront a c)) = length (store c)"
  "key (store (addFront a c) ! b) = key (store c ! b)"
  "value (store (addFront a c) ! b) = value (store c ! b)"
  "cacheMap (addFront a c) = cacheMap c"
  "size_c (addFront a c) = size_c c"
  "capacity (addFront a c) = capacity c"
  by (simp_all add: addFront_def Let_def split: option.splits)

lemma addFront_dseg:
  assumes "dseg (store c) None (head c) as (tail c) None" and "distinct as"
    and "a \<notin> set as" and "a < length (store c)"
  shows "dseg (store (addFront a c)) None (head (addFront a c)) (a # as) (tail (addFront a c)) None"
proof (cases as)
  case Nil
  with assms show ?thesis by (auto simp: addFront_def Let_def)
next
  case (Cons h as')
  let ?st = "(store c)[a := (store c ! a)\<lparr>next := Some h, prev := None\<rparr>,
                        h := (store c ! h)\<lparr>prev := Some a\<rparr>]"
  from assms Cons have h: "head c = Some h" "h < length (store c)" "a \<noteq> h" "h \<notin> set as'"
    "a \<notin> set as'" and R: "dseg (store c) (Some h) (next (store c ! h)) as' (tail c) None"
    by auto
  from dseg_last [OF R] have t: "tail c \<noteq> None" by (auto split: if_splits)
  have "dseg ?st (Some h) (next (store c ! h)) as' (tail c) None"
    using R h assms(4) by (auto simp: nth_list_update elim!: dseg_cong)
  with h t assms(4) Cons show ?thesis
    by (auto simp: addFront_def Let_def nth_list_update)
qed

lemma moveToFront_frame:
  "length (store (moveToFront a c)) = length (store c)"
  "key (store (moveToFront a c) ! b) = key (store c ! b)"
  "value (store (moveToFront a c) ! b) = value (store c ! b)"
  "cacheMap (moveToFront a c) = cacheMap c"
  "size_c (moveToFront a c) = size_c c"
  "capacity (moveToFront a c) = capacity c"
  by (simp_all add: moveToFront_def addFront_frame remove_frame)

lemma moveToFront_dseg:
  assumes "dseg (store c) None (head c) as (tail c) None" and "distinct as" and "a \<in> set as"
  shows "dseg (store (moveToFront a c)) None (head (moveToFront a c)) (a # remove1 a as)
           (tail (moveToFront a c)) None"
proof (cases "Some a = head c")
  case True
  with assms have "as = a # remove1 a as" by (cases as) auto
  with True assms(1) show ?thesis by (simp add: moveToFront_def)
next
  case False
  from assms(3) obtain xs ys where as: "as = xs @ a # ys" by (auto simp: in_set_conv_decomp)
  have d: "distinct (xs @ a # ys)" and
       s: "dseg (store c) None (head c) (xs @ a # ys) (tail c) None"
    using assms(1,2) as by auto
  from d have r: "remove1 a (xs @ a # ys) = xs @ ys" by (simp add: remove1_append)
  have "dseg (store (remove a c)) None (head (remove a c)) (xs @ ys) (tail (remove a c)) None"
    using remove_dseg [OF s d] by simp
  moreover have "distinct (xs @ ys)" using d by auto
  moreover have "a \<notin> set (xs @ ys)" using d by auto
  moreover have "a < length (store (remove a c))"
    using dseg_bound [OF s] by (simp add: remove_frame)
  ultimately have
    "dseg (store (addFront a (remove a c))) None (head (addFront a (remove a c))) (a # xs @ ys)
          (tail (addFront a (remove a c))) None"
    by (rule addFront_dseg)
  with False show ?thesis by (simp add: moveToFront_def r as)
qed

subsection \<open>Lookup, assignment and deletion in a map\<close>

lemma map_index_None: "map_index eq m k = None \<longleftrightarrow> (\<forall>e\<in>set m. \<not> eq (fst e) k)"
  by (induction m) auto

lemma map_index_Some: "map_index eq m k = Some a \<Longrightarrow> \<exists>k'. (k', a) \<in> set m \<and> eq k' k"
  by (induction m) (auto split: if_splits)

lemma map_assign_miss: "map_index eq m k = None \<Longrightarrow> map_assign eq m k x = m @ [(k, x)]"
  by (induction m) (auto split: if_splits)

lemma map_delete_subset: "set (map_delete eq m k) \<subseteq> set m"
  by (induction m) auto

lemma map_delete_keeps: "e \<in> set m \<Longrightarrow> \<not> eq (fst e) k \<Longrightarrow> e \<in> set (map_delete eq m k)"
  by (induction m) auto

lemma map_delete_distinct: "distinct (map snd m) \<Longrightarrow> distinct (map snd (map_delete eq m k))"
proof (induction m)
  case Nil
  then show ?case by simp
next
  case (Cons e m)
  then show ?case using map_delete_subset [of eq m k] by auto
qed


lemma map_delete_one:
  "distinct m \<Longrightarrow> x \<in> set m \<Longrightarrow> eq (fst x) k \<Longrightarrow> \<forall>e\<in>set m. eq (fst e) k \<longrightarrow> e = x \<Longrightarrow>
   map_delete eq m k = remove1 x m"
proof (induction m)
  case Nil
  then show ?case by simp
next
  case (Cons e m)
  show ?case
  proof (cases "eq (fst e) k")
    case True
    then have "e = x" using Cons.prems(4) by simp
    with True show ?thesis by simp
  next
    case False
    then have ne: "e \<noteq> x" using Cons.prems(3) by auto
    have "map_delete eq m k = remove1 x m"
    proof (rule Cons.IH)
      show "distinct m" using Cons.prems(1) by simp
      show "x \<in> set m" using Cons.prems(2) ne by simp
      show "eq (fst x) k" by (rule Cons.prems(3))
      show "\<forall>e\<in>set m. eq (fst e) k \<longrightarrow> e = x" using Cons.prems(4) by simp
    qed
    with False ne show ?thesis by simp
  qed
qed

subsection \<open>The cache operations keep the invariant\<close>

lemma wf_dseg: "lru_wf eq c as \<Longrightarrow> dseg (store c) None (head c) as (tail c) None"
  by (simp add: lru_wf_def)

lemma wf_distinct: "lru_wf eq c as \<Longrightarrow> distinct as"
  by (simp add: lru_wf_def)

lemma wf_size: "lru_wf eq c as \<Longrightarrow> size_c c = int (length as)"
  by (simp add: lru_wf_def)


lemma wf_elem: "lru_wf eq c as \<Longrightarrow> a \<in> set as \<Longrightarrow> (key (store c ! a), a) \<in> set (cacheMap c)"
  by (simp add: lru_wf_def)

lemma wf_map_elem:
  "lru_wf eq c as \<Longrightarrow> (k, a) \<in> set (cacheMap c) \<Longrightarrow>
   a < length (store c) \<and> k = key (store c ! a) \<and> (eq k k \<longrightarrow> a \<in> set as)"
  unfolding lru_wf_def by fastforce

lemma wf_key_inj:
  "lru_wf eq c as \<Longrightarrow> a \<in> set as \<Longrightarrow> b \<in> set as \<Longrightarrow>
   eq (key (store c ! a)) (key (store c ! b)) \<Longrightarrow> a = b"
  by (simp add: lru_wf_def)

lemma wf_map_distinct: "lru_wf eq c as \<Longrightarrow> distinct (map snd (cacheMap c))"
  by (simp add: lru_wf_def)

lemma wf_map:
  assumes "key_equality eq" and "lru_wf eq c as"
  shows "(map_index eq (cacheMap c) k = Some a) = (a \<in> set as \<and> key (store c ! a) = k \<and> eq k k)"
proof
  assume "map_index eq (cacheMap c) k = Some a"
  then obtain k' where e: "(k', a) \<in> set (cacheMap c)" and q: "eq k' k"
    using map_index_Some by fastforce
  from q assms(1) have "k' = k" by (auto simp: key_equality_def)
  with e q wf_map_elem [OF assms(2), of k a]
  show "a \<in> set as \<and> key (store c ! a) = k \<and> eq k k" by simp
next
  assume r: "a \<in> set as \<and> key (store c ! a) = k \<and> eq k k"
  then have "(k, a) \<in> set (cacheMap c)" using wf_elem [OF assms(2), of a] by simp
  then have "\<exists>e\<in>set (cacheMap c). eq (fst e) k"
    using r by (intro bexI [of _ "(k, a)"]) simp_all
  then have "map_index eq (cacheMap c) k \<noteq> None" by (simp add: map_index_None)
  then obtain b where b: "map_index eq (cacheMap c) k = Some b" by auto
  then obtain k' where e: "(k', b) \<in> set (cacheMap c)" and q: "eq k' k"
    using map_index_Some by fastforce
  from q assms(1) have "k' = k" by (auto simp: key_equality_def)
  with e q wf_map_elem [OF assms(2), of k b]
  have "b \<in> set as" "key (store c ! b) = k" by simp_all
  with r wf_key_inj [OF assms(2), of b a] have "b = a" by simp
  with b show "map_index eq (cacheMap c) k = Some a" by simp
qed

lemma wf_miss:
  assumes "lru_wf eq c as" and "map_index eq (cacheMap c) k = None" and "a \<in> set as"
  shows "\<not> eq (key (store c ! a)) k"
  using wf_elem [OF assms(1,3)] assms(2) by (auto simp: map_index_None)

lemma wf_nodes: "lru_wf eq c as \<Longrightarrow> nodes c = as"
  unfolding lru_wf_def nodes_def
  by (metis dseg_walk dseg_bound distinct_bound_length)

lemma wf_tail: "lru_wf eq c as \<Longrightarrow> tail c = (if as = [] then None else Some (last as))"
  using dseg_last [OF wf_dseg] by blast

lemma wf_head: "lru_wf eq c as \<Longrightarrow> head c = (if as = [] then None else Some (hd as))"
  unfolding lru_wf_def by (cases as) auto

lemma moveToFront_wf:
  assumes "lru_wf eq c as" and "a \<in> set as"
  shows "lru_wf eq (moveToFront a c) (a # remove1 a as)"
proof -
  have d: "distinct as" using assms(1) by (rule wf_distinct)
  have s: "set (a # remove1 a as) = set as" using assms(2) d by auto
  have "dseg (store (moveToFront a c)) None (head (moveToFront a c)) (a # remove1 a as)
          (tail (moveToFront a c)) None"
    using wf_dseg [OF assms(1)] d assms(2) by (rule moveToFront_dseg)
  moreover have "distinct (a # remove1 a as)" using d by simp
  moreover have "length (a # remove1 a as) = length as"
    using assms(2) length_pos_if_in_set [OF assms(2)] by (simp add: length_remove1)
  ultimately show ?thesis
    using assms(1) unfolding lru_wf_def s by (simp add: moveToFront_frame)
qed

lemma putNew_frame:
  "length (store (putNew eq k v c)) = Suc (length (store c))"
  "b < length (store c) \<Longrightarrow> key (store (putNew eq k v c) ! b) = key (store c ! b)"
  "b < length (store c) \<Longrightarrow> value (store (putNew eq k v c) ! b) = value (store c ! b)"
  "key (store (putNew eq k v c) ! length (store c)) = k"
  "value (store (putNew eq k v c) ! length (store c)) = v"
  "cacheMap (putNew eq k v c) = map_assign eq (cacheMap c) k (length (store c))"
  "size_c (putNew eq k v c) = size_c c + 1"
  "capacity (putNew eq k v c) = capacity c"
  by (simp_all add: putNew_def Let_def addFront_frame nth_append)

lemma putNew_wf:
  assumes "key_equality eq" and "lru_wf eq c as" and "map_index eq (cacheMap c) k = None"
  shows "lru_wf eq (putNew eq k v c) (length (store c) # as)"
proof -
  let ?n = "length (store c)" and ?p = "putNew eq k v c"
  let ?e = "\<lparr>key = k, value = v, prev = None, next = None\<rparr>"
  let ?c2 = "c\<lparr>store := store c @ [?e], cacheMap := map_assign eq (cacheMap c) k ?n\<rparr>"
  have s: "dseg (store c) None (head c) as (tail c) None" using assms(2) by (rule wf_dseg)
  have b: "\<forall>a\<in>set as. a < ?n" using dseg_bound [OF s] .
  have d: "distinct as" using assms(2) by (rule wf_distinct)
  have m: "cacheMap ?p = cacheMap c @ [(k, ?n)]"
    using assms(3) by (simp add: putNew_frame map_assign_miss)
  have "dseg (store ?c2) None (head ?c2) as (tail ?c2) None"
    using s b by (auto simp: nth_append elim!: dseg_cong)
  moreover note d
  moreover have "?n \<notin> set as" using b by auto
  moreover have "?n < length (store ?c2)" by simp
  ultimately have
    "dseg (store (addFront ?n ?c2)) None (head (addFront ?n ?c2)) (?n # as)
          (tail (addFront ?n ?c2)) None"
    by (rule addFront_dseg)
  then have 1: "dseg (store ?p) None (head ?p) (?n # as) (tail ?p) None"
    by (simp add: putNew_def Let_def)
  have 2: "distinct (?n # as)" using d b by auto
  have 3: "\<forall>a\<in>set (?n # as). (key (store ?p ! a), a) \<in> set (cacheMap ?p)"
    using wf_elem [OF assms(2)] b by (auto simp: m putNew_frame(1-5))
  have 4: "\<forall>e\<in>set (cacheMap ?p). snd e < length (store ?p) \<and> fst e = key (store ?p ! snd e) \<and>
             (eq (fst e) (fst e) \<longrightarrow> snd e \<in> set (?n # as))"
  proof
    fix e assume "e \<in> set (cacheMap ?p)"
    then consider "e = (k, ?n)" | "e \<in> set (cacheMap c)" by (auto simp: m)
    then show "snd e < length (store ?p) \<and> fst e = key (store ?p ! snd e) \<and>
             (eq (fst e) (fst e) \<longrightarrow> snd e \<in> set (?n # as))"
    proof cases
      case 1
      then show ?thesis by (simp add: putNew_frame)
    next
      case 2
      then show ?thesis
        using wf_map_elem [OF assms(2), of "fst e" "snd e"] by (simp add: putNew_frame)
    qed
  qed
  have 5: "distinct (map snd (cacheMap ?p))"
  proof -
    have "\<forall>e\<in>set (cacheMap c). snd e \<noteq> ?n"
      using wf_map_elem [OF assms(2)] by fastforce
    then show ?thesis using wf_map_distinct [OF assms(2)] by (auto simp: m)
  qed
  have nk: "\<not> eq (key (store c ! a)) k \<and> \<not> eq k (key (store c ! a))" if "a \<in> set as" for a
  proof -
    have 1: "\<not> eq (key (store c ! a)) k" using wf_miss [OF assms(2,3) that] .
    have "\<not> eq k (key (store c ! a))"
    proof
      assume q: "eq k (key (store c ! a))"
      with assms(1) have "k = key (store c ! a)" by (auto simp: key_equality_def)
      with q 1 show False by simp
    qed
    with 1 show ?thesis by simp
  qed
  have 6: "\<forall>a\<in>set (?n # as). \<forall>b\<in>set (?n # as).
             eq (key (store ?p ! a)) (key (store ?p ! b)) \<longrightarrow> a = b"
    using nk b wf_key_inj [OF assms(2)] by (auto simp: putNew_frame)
  have 7: "size_c ?p = int (length (?n # as))"
    using wf_size [OF assms(2)] by (simp add: putNew_frame)
  from 1 2 3 4 5 6 7 show ?thesis unfolding lru_wf_def by blast
qed

lemma removeTail_frame:
  "length (store (removeTail eq c)) = length (store c)"
  "key (store (removeTail eq c) ! b) = key (store c ! b)"
  "value (store (removeTail eq c) ! b) = value (store c ! b)"
  "capacity (removeTail eq c) = capacity c"
  by (simp_all add: removeTail_def Let_def remove_frame split: option.splits)

lemma removeTail_wf:
  assumes "key_equality eq" and "lru_wf eq c as" and "as \<noteq> []"
  shows "lru_wf eq (removeTail eq c) (butlast as) \<and>
         cacheMap (removeTail eq c) = map_delete eq (cacheMap c) (key (store c ! last as)) \<and>
         size_c (removeTail eq c) = size_c c - 1"
proof -
  let ?r = "removeTail eq c"
  from assms(3) obtain xs t where as: "as = xs @ [t]" by (cases as rule: rev_cases) auto
  let ?kt = "key (store c ! t)"
  have t: "tail c = Some t" using wf_tail [OF assms(2)] as by simp
  have d: "distinct (xs @ t # [])" using wf_distinct [OF assms(2)] as by simp
  have s: "dseg (store c) None (head c) (xs @ t # []) (tail c) None"
    using wf_dseg [OF assms(2)] as by simp
  have tin: "t \<in> set as" "t \<notin> set xs" "set xs \<subseteq> set as" using d as by auto
  have m: "cacheMap ?r = map_delete eq (cacheMap c) ?kt"
    and sz: "size_c ?r = size_c c - 1"
    and st: "store ?r = store (remove t c)" "head ?r = head (remove t c)"
      "tail ?r = tail (remove t c)"
    using t by (simp_all add: removeTail_def Let_def remove_frame)
  have 1: "dseg (store ?r) None (head ?r) xs (tail ?r) None"
    using remove_dseg [OF s d] by (simp add: st)
  have 2: "distinct xs" using d by simp
  have 3: "\<forall>a\<in>set xs. (key (store ?r ! a), a) \<in> set (cacheMap ?r)"
  proof
    fix a assume a: "a \<in> set xs"
    then have "a \<in> set as" "a \<noteq> t" using tin by auto
    then have "\<not> eq (key (store c ! a)) ?kt"
      using wf_key_inj [OF assms(2), of a t] tin(1) by auto
    with wf_elem [OF assms(2) \<open>a \<in> set as\<close>]
    show "(key (store ?r ! a), a) \<in> set (cacheMap ?r)"
      by (simp add: m removeTail_frame map_delete_keeps)
  qed
  have 4: "\<forall>e\<in>set (cacheMap ?r). snd e < length (store ?r) \<and> fst e = key (store ?r ! snd e) \<and>
             (eq (fst e) (fst e) \<longrightarrow> snd e \<in> set xs)"
  proof (intro ballI conjI impI)
    fix e assume e: "e \<in> set (cacheMap ?r)"
    then have ec: "e \<in> set (cacheMap c)" using map_delete_subset [of eq "cacheMap c" ?kt]
      by (auto simp: m)
    note w = wf_map_elem [OF assms(2), of "fst e" "snd e"]
    from ec w show "snd e < length (store ?r)" by (simp add: removeTail_frame)
    from ec w show "fst e = key (store ?r ! snd e)" by (simp add: removeTail_frame)
    assume q: "eq (fst e) (fst e)"
    with ec w have ia: "snd e \<in> set as" and ke: "fst e = key (store c ! snd e)" by simp_all
    have "snd e \<noteq> t"
    proof
      assume eq_t: "snd e = t"
      then have x: "e = (?kt, t)" using ke by (cases e) simp
      have "\<forall>e'\<in>set (cacheMap c). eq (fst e') ?kt \<longrightarrow> e' = (?kt, t)"
      proof (intro ballI impI)
        fix e' assume e': "e' \<in> set (cacheMap c)" and q': "eq (fst e') ?kt"
        from q' assms(1) have f: "fst e' = ?kt" by (auto simp: key_equality_def)
        with q' have "eq (fst e') (fst e')" by simp
        with e' wf_map_elem [OF assms(2), of "fst e'" "snd e'"]
        have "snd e' \<in> set as" "fst e' = key (store c ! snd e')" by simp_all
        with f q' wf_key_inj [OF assms(2), of "snd e'" t] tin(1) have "snd e' = t" by simp
        with f show "e' = (?kt, t)" by (cases e') simp
      qed
      moreover have "distinct (cacheMap c)"
        using wf_map_distinct [OF assms(2)] by (rule distinct_map [THEN iffD1, THEN conjunct1])
      moreover have "(?kt, t) \<in> set (cacheMap c)" using ec x by simp
      moreover have "eq (fst (?kt, t)) ?kt" using q x by simp
      ultimately have "map_delete eq (cacheMap c) ?kt = remove1 (?kt, t) (cacheMap c)"
        by (intro map_delete_one)
      with e x \<open>distinct (cacheMap c)\<close> show False by (simp add: m)
    qed
    with ia as show "snd e \<in> set xs" by auto
  qed
  have 5: "distinct (map snd (cacheMap ?r))"
    using wf_map_distinct [OF assms(2)] by (simp add: m map_delete_distinct)
  have 6: "\<forall>a\<in>set xs. \<forall>b\<in>set xs. eq (key (store ?r ! a)) (key (store ?r ! b)) \<longrightarrow> a = b"
    using wf_key_inj [OF assms(2)] tin(3) by (auto simp: removeTail_frame)
  have 7: "size_c ?r = int (length xs)" using wf_size [OF assms(2)] as by (simp add: sz)
  from 1 2 3 4 5 6 7 have "lru_wf eq ?r xs" unfolding lru_wf_def by blast
  with m sz as show ?thesis by simp
qed

lemma Put_hit:
  assumes "key_equality eq" and "lru_wf eq c as" and "map_index eq (cacheMap c) k = Some a"
  shows "lru_wf eq (Put eq k v c) (a # remove1 a as) \<and>
         length (store (Put eq k v c)) = length (store c) \<and>
         (\<forall>b. key (store (Put eq k v c) ! b) = key (store c ! b)) \<and>
         (\<forall>b. b \<noteq> a \<longrightarrow> value (store (Put eq k v c) ! b) = value (store c ! b)) \<and>
         value (store (Put eq k v c) ! a) = v \<and>
         cacheMap (Put eq k v c) = cacheMap c \<and> size_c (Put eq k v c) = size_c c \<and>
         capacity (Put eq k v c) = capacity c"
proof -
  let ?c = "c\<lparr>store := (store c)[a := (store c ! a)\<lparr>value := v\<rparr>]\<rparr>"
  have a: "a \<in> set as" "key (store c ! a) = k" using wf_map [OF assms(1,2)] assms(3) by auto
  have s: "dseg (store c) None (head c) as (tail c) None" using assms(2) by (rule wf_dseg)
  have al: "a < length (store c)" using dseg_bound [OF s] a by simp
  have "dseg (store ?c) None (head ?c) as (tail ?c) None"
    using s al by (auto simp: nth_list_update elim!: dseg_cong)
  then have "lru_wf eq ?c as" using assms(2) by (simp add: lru_wf_def)
  from moveToFront_wf [OF this a(1)] al assms(3) show ?thesis
    by (simp add: Put_def moveToFront_frame nth_list_update)
qed

lemma Put_miss:
  assumes "key_equality eq" and "lru_wf eq c as" and "map_index eq (cacheMap c) k = None"
    and "size_c c \<le> capacity c" and "1 \<le> capacity c"
  shows "lru_wf eq (Put eq k v c)
           (length (store c) # (if size_c c < capacity c then as else butlast as)) \<and>
         length (store (Put eq k v c)) = Suc (length (store c)) \<and>
         (\<forall>b < length (store c). key (store (Put eq k v c) ! b) = key (store c ! b) \<and>
              value (store (Put eq k v c) ! b) = value (store c ! b)) \<and>
         key (store (Put eq k v c) ! length (store c)) = k \<and>
         value (store (Put eq k v c) ! length (store c)) = v \<and>
         size_c (Put eq k v c) = (if size_c c < capacity c then size_c c + 1 else size_c c) \<and>
         capacity (Put eq k v c) = capacity c"
proof -
  let ?n = "length (store c)"
  have w: "lru_wf eq (putNew eq k v c) (?n # as)" using putNew_wf [OF assms(1,2,3)] .
  have sz: "size_c c = int (length as)" using assms(2) by (rule wf_size)
  show ?thesis
  proof (cases "size_c c < capacity c")
    case True
    with w show ?thesis using assms(3) by (simp add: Put_def Let_def putNew_frame)
  next
    case False
    with assms(4,5) sz have ne: "as \<noteq> []" by auto
    from removeTail_wf [OF assms(1) w] ne False assms(3) show ?thesis
      by (simp add: Put_def Let_def putNew_frame removeTail_frame)
  qed
qed

lemma Get_hit:
  assumes "key_equality eq" and "lru_wf eq c as" and "map_index eq (cacheMap c) k = Some a"
  shows "lru_wf eq (snd (Get eq z k c)) (a # remove1 a as) \<and>
         fst (Get eq z k c) = (value (store c ! a), True) \<and>
         length (store (snd (Get eq z k c))) = length (store c) \<and>
         (\<forall>b. key (store (snd (Get eq z k c)) ! b) = key (store c ! b) \<and>
              value (store (snd (Get eq z k c)) ! b) = value (store c ! b)) \<and>
         cacheMap (snd (Get eq z k c)) = cacheMap c \<and> size_c (snd (Get eq z k c)) = size_c c \<and>
         capacity (snd (Get eq z k c)) = capacity c"
proof -
  have a: "a \<in> set as" using wf_map [OF assms(1,2)] assms(3) by auto
  from moveToFront_wf [OF assms(2) a] assms(3) show ?thesis
    by (simp add: Get_def Let_def moveToFront_frame)
qed

lemma Get_miss: "map_index eq (cacheMap c) k = None \<Longrightarrow> Get eq z k c = ((z, False), c)"
  by (simp add: Get_def)

lemma reachable_inv:
  assumes "key_equality eq"
  shows "reachable eq cap c \<Longrightarrow> \<exists>as. lru_inv eq c cap as"
proof (induction rule: reachable.induct)
  case (init c)
  then have "lru_inv eq c cap []"
    by (auto simp: NewLRUCache_def lru_inv_def lru_wf_def split: if_splits)
  then show ?case ..
next
  case (get c z k)
  from get.IH obtain as where i: "lru_inv eq c cap as" ..
  show ?case
  proof (cases "map_index eq (cacheMap c) k")
    case None
    with i show ?thesis by (auto simp: Get_miss)
  next
    case (Some a)
    with i Get_hit [OF assms, of c as k a z]
    have "lru_inv eq (snd (Get eq z k c)) cap (a # remove1 a as)"
      by (simp add: lru_inv_def)
    then show ?thesis ..
  qed
next
  case (put c k v)
  from put.IH obtain as where i: "lru_inv eq c cap as" ..
  show ?case
  proof (cases "map_index eq (cacheMap c) k")
    case None
    with i Put_miss [OF assms, of c as k v]
    have "lru_inv eq (Put eq k v c) cap
            (length (store c) # (if size_c c < capacity c then as else butlast as))"
      by (simp add: lru_inv_def)
    then show ?thesis ..
  next
    case (Some a)
    with i Put_hit [OF assms, of c as k a v]
    have "lru_inv eq (Put eq k v c) cap (a # remove1 a as)"
      by (simp add: lru_inv_def)
    then show ?thesis ..
  qed
qed

lemma reachable_wf:
  assumes "key_equality eq" and "reachable eq cap c"
  obtains as where "lru_wf eq c as" and "capacity c = cap" and "size_c c \<le> cap" and "1 \<le> cap"
  using reachable_inv [OF assms] unfolding lru_inv_def by blast

subsection \<open>The recency list in a well-formed cache\<close>

lemma wf_inList:
  assumes "lru_wf eq c as"
  shows "inList c a \<longleftrightarrow> a \<in> set as"
proof
  have s: "dseg (store c) None (head c) as (tail c) None" using assms by (rule wf_dseg)
  show "a \<in> set as" if "inList c a"
    using that
  proof (induction rule: inList.induct)
    case (first a)
    with s show ?case by (cases as) auto
  next
    case (step a b)
    then obtain xs ys where "as = xs @ a # ys" by (auto simp: in_set_conv_decomp)
    with s step.hyps(2) show ?case by (cases ys) (auto simp: dseg_append)
  qed
  show "inList c a" if "a \<in> set as"
  proof -
    have "\<forall>a ys. as = xs @ a # ys \<longrightarrow> inList c a" for xs
    proof (induction xs rule: rev_induct)
      case Nil
      show ?case using s by (auto intro: inList.first)
    next
      case (snoc x xs)
      show ?case
      proof (intro allI impI)
        fix a ys assume as: "as = (xs @ [x]) @ a # ys"
        then have "inList c x" using snoc by simp
        moreover have "next (store c ! x) = Some a"
          using s as by (auto simp: dseg_append)
        ultimately show "inList c a" by (rule inList.step)
      qed
    qed
    with that show ?thesis by (auto simp: in_set_conv_decomp)
  qed
qed

lemma wf_inList_set: "lru_wf eq c as \<Longrightarrow> {a. inList c a} = set as"
  using wf_inList by blast

lemma wf_recency:
  "lru_wf eq c as \<Longrightarrow> recency c = map (\<lambda>a. (key (store c ! a), value (store c ! a))) as"
  by (simp add: recency_def wf_nodes)

lemma remove1_filter_key:
  "distinct as \<Longrightarrow> a \<in> set as \<Longrightarrow> \<forall>b\<in>set as. f b = f a \<longrightarrow> b = a \<Longrightarrow>
   \<forall>b\<in>set as. b \<noteq> a \<longrightarrow> g' b = g b \<Longrightarrow> \<forall>b. fst (g b) = f b \<Longrightarrow>
   map g' (remove1 a as) = filter (\<lambda>p. fst p \<noteq> f a) (map g as)"
proof (induction as)
  case Nil
  then show ?case by simp
next
  case (Cons x as)
  show ?case
  proof (cases "x = a")
    case True
    with Cons.prems have "\<forall>b\<in>set as. f b \<noteq> f a" by auto
    then have "filter (\<lambda>p. fst p \<noteq> f a) (map g as) = map g as"
      using Cons.prems(5) by (auto simp: filter_id_conv)
    moreover have "map g' as = map g as" using Cons.prems True by auto
    ultimately show ?thesis using True Cons.prems(5) by simp
  next
    case False
    with Cons show ?thesis by auto
  qed
qed

lemma map_of_unique:
  "(k, v) \<in> set xs \<Longrightarrow> \<forall>p\<in>set xs. fst p = k \<longrightarrow> snd p = v \<Longrightarrow> map_of xs k = Some v"
proof (induction xs)
  case Nil
  then show ?case by simp
next
  case (Cons x xs)
  show ?case
  proof (cases "fst x = k")
    case True
    with Cons.prems(2) have "snd x = v" by simp
    with True show ?thesis by (cases x) simp
  next
    case False
    with Cons.prems(1) have "(k, v) \<in> set xs" by auto
    moreover have "\<forall>p\<in>set xs. fst p = k \<longrightarrow> snd p = v" using Cons.prems(2) by simp
    ultimately have "map_of xs k = Some v" by (rule Cons.IH)
    with False show ?thesis by (cases x) simp
  qed
qed

lemma wf_key_unique:
  assumes "lru_wf eq c as" and "a \<in> set as" and "eq (key (store c ! a)) (key (store c ! a))"
  shows "\<forall>b\<in>set as. key (store c ! b) = key (store c ! a) \<longrightarrow> b = a"
  using wf_key_inj [OF assms(1) _ assms(2)] assms(3) by auto

lemma Get_at_head:
  assumes "key_equality eq" and "lru_wf eq c (a # as)" and "key (store c ! a) = k" and "eq k k"
  shows "Get eq z k c = ((value (store c ! a), True), c)"
proof -
  have "head c = Some a" using wf_head [OF assms(2)] by simp
  moreover have "map_index eq (cacheMap c) k = Some a"
    using wf_map [OF assms(1,2), of k a] assms(3,4) by simp
  ultimately show ?thesis by (simp add: Get_def moveToFront_def)
qed




section \<open>The examples, evaluated\<close>

lemmas lru_ops = Put_def Get_def putNew_def addFront_def remove_def removeTail_def
  moveToFront_def Let_def

lemma key_equality_string: "key_equality ((=) :: string \<Rightarrow> string \<Rightarrow> bool)"
  by (simp add: key_equality_def)

lemma key_equality_feq: "key_equality feq"
  by (simp add: key_equality_def feq_def)

lemma cache_new_reachable: "reachable (=) 3 cache_new"
  by (rule reachable.init) (simp add: NewLRUCache_def cache_new_def)

lemma cache_abc_reachable: "reachable (=) 3 cache_abc"
  unfolding cache_abc_def by (intro reachable.put cache_new_reachable)

lemma cache_abc_state:
  "cache_abc =
     \<lparr>capacity = 3, size_c = 3, cacheMap = [(''a'', 0), (''b'', 1), (''c'', 2)],
      head = Some 2, tail = Some 0,
      store = [\<lparr>key = ''a'', value = 1, prev = Some 1, next = None\<rparr>,
               \<lparr>key = ''b'', value = 2, prev = Some 2, next = Some 0\<rparr>,
               \<lparr>key = ''c'', value = 3, prev = None, next = Some 1\<rparr>]\<rparr>"
  by (simp add: cache_abc_def cache_new_def NewLRUCache_def lru_ops numeral_2_eq_2)

lemma cache_abc_recency: "recency cache_abc = [(''c'', 3), (''b'', 2), (''a'', 1)]"
  by (simp add: cache_abc_state recency_def nodes_def)

lemma cache_nan1_reachable: "reachable feq 1 cache_nan1"
  unfolding cache_nan1_def by (intro reachable.put, rule reachable.init) (simp add: NewLRUCache_def)

lemma cache_nan_reachable: "reachable feq 1 cache_nan"
  unfolding cache_nan_def by (intro reachable.put cache_nan1_reachable)

lemma cache_nan1_state:
  "cache_nan1 =
     \<lparr>capacity = 1, size_c = 1, cacheMap = [(NaN, 0)], head = Some 0, tail = Some 0,
      store = [\<lparr>key = NaN, value = 1, prev = None, next = None\<rparr>]\<rparr>"
  by (simp add: cache_nan1_def NewLRUCache_def lru_ops feq_def)



section \<open>Construction\<close>

text \<open>
  C6. \<^verbatim>\<open>NewLRUCache\<close> panics for every capacity that is zero or negative, and no cache
  is returned. For every positive capacity it returns a cache with an empty map, no
  head, no tail and size 0.
\<close>

theorem NewLRUCache_spec:
  "(cap \<le> 0 \<longrightarrow> (\<exists>msg. (NewLRUCache cap :: error + ('k, 'v) LRUCache) = Inl (Panic msg))) \<and>
   (0 < cap \<longrightarrow> (\<exists>c. (NewLRUCache cap :: error + ('k, 'v) LRUCache) = Inr c \<and>
        capacity c = cap \<and> cacheMap c = [] \<and> head c = None \<and> tail c = None \<and>
        size_c c = 0 \<and> nodes c = [] \<and> recency c = []))"
  by (simp add: NewLRUCache_def nodes_def recency_def)

theorem NewLRUCache_spec_witness:
  "((0::int) \<le> 0 \<and> (\<exists>msg. (NewLRUCache 0 :: error + (nat, nat) LRUCache) = Inl (Panic msg))) \<and>
   ((0::int) < 3 \<and> (\<exists>c. (NewLRUCache 3 :: error + (nat, nat) LRUCache) = Inr c \<and>
        capacity c = 3 \<and> cacheMap c = [] \<and> head c = None \<and> tail c = None \<and>
        size_c c = 0 \<and> nodes c = [] \<and> recency c = []))"
  using NewLRUCache_spec [of 0, where ?'k = nat and ?'v = nat]
        NewLRUCache_spec [of 3, where ?'k = nat and ?'v = nat]
  by simp

section \<open>Invariants of the reachable states\<close>

text \<open>
  C1. In every state reached from \<^verbatim>\<open>NewLRUCache cap\<close> by \<^verbatim>\<open>Get\<close> and \<^verbatim>\<open>Put\<close> calls,
  the capacity is \<open>cap\<close>, it is at least 1, and the number of live entries is at most
  \<open>cap\<close>: as the \<^verbatim>\<open>size\<close> field, as the number of entries in the recency list, and as
  the number of elements of the map whose key is equal to itself. (Elements whose key is
  not equal to itself are never deleted from the map; the witness has three of them
  in a cache of capacity 2.)
\<close>

theorem capacity_invariant:
  "key_equality eq \<Longrightarrow> reachable eq cap c \<Longrightarrow>
     1 \<le> cap \<and> capacity c = cap \<and> size_c c \<le> cap \<and>
     int (length (recency c)) \<le> cap \<and> int (card {a. inList c a}) \<le> cap \<and>
     int (length (filter (\<lambda>e. eq (fst e) (fst e)) (cacheMap c))) \<le> cap"
proof -
  assume ke: "key_equality eq" and "reachable eq cap c"
  then obtain as where w: "lru_wf eq c as" and i: "capacity c = cap" "size_c c \<le> cap" "1 \<le> cap"
    by (rule reachable_wf)
  have d: "distinct as" and sz: "size_c c = int (length as)"
    using w by (rule wf_distinct, rule wf_size)
  let ?m = "filter (\<lambda>e. eq (fst e) (fst e)) (cacheMap c)"
  have "distinct (map snd ?m)" using wf_map_distinct [OF w] by (rule distinct_map_filter)
  then have "length ?m = card (snd ` set ?m)"
    by (metis distinct_card length_map set_map)
  moreover have "snd ` set ?m \<subseteq> set as"
    using wf_map_elem [OF w] by fastforce
  then have "card (snd ` set ?m) \<le> card (set as)" by (intro card_mono) auto
  ultimately have "length ?m \<le> length as" using d by (simp add: distinct_card)
  then show ?thesis
    using i sz d by (simp add: wf_inList_set [OF w] wf_recency [OF w] distinct_card)
qed

theorem capacity_invariant_witness:
  "key_equality ((=) :: string \<Rightarrow> string \<Rightarrow> bool) \<and> reachable (=) 3 (Put (=) ''d'' 4 cache_abc) \<and>
   recency (Put (=) ''d'' 4 cache_abc) = [(''d'', 4), (''c'', 3), (''b'', 2)] \<and>
   capacity (Put (=) ''d'' 4 cache_abc) = 3 \<and> size_c (Put (=) ''d'' 4 cache_abc) \<le> 3 \<and>
   int (length (recency (Put (=) ''d'' 4 cache_abc))) \<le> 3 \<and>
   int (card {a. inList (Put (=) ''d'' 4 cache_abc) a}) \<le> 3 \<and>
   key_equality feq \<and>
   reachable feq 2 (Put feq NaN 3 (Put feq NaN 2 (Put feq NaN (1::int) (projr (NewLRUCache 2))))) \<and>
   size_c (Put feq NaN 3 (Put feq NaN 2 (Put feq NaN (1::int) (projr (NewLRUCache 2))))) \<le> 2 \<and>
   recency (Put feq NaN 3 (Put feq NaN 2 (Put feq NaN (1::int) (projr (NewLRUCache 2))))) =
     [(NaN, 3), (NaN, 2)] \<and>
   length (cacheMap (Put feq NaN 3 (Put feq NaN 2 (Put feq NaN (1::int) (projr (NewLRUCache 2)))))) = 3"
proof -
  let ?n = "Put feq NaN 3 (Put feq NaN 2 (Put feq NaN (1::int) (projr (NewLRUCache 2))))"
  have r: "reachable (=) 3 (Put (=) ''d'' 4 cache_abc)" by (intro reachable.put cache_abc_reachable)
  have e: "recency (Put (=) ''d'' 4 cache_abc) = [(''d'', 4), (''c'', 3), (''b'', 2)]"
    by (simp add: cache_abc_state lru_ops recency_def nodes_def)
  have rn: "reachable feq 2 ?n"
    by (intro reachable.put, rule reachable.init) (simp add: NewLRUCache_def)
  have en: "recency ?n = [(NaN, 3), (NaN, 2)]" "length (cacheMap ?n) = 3"
    by (simp_all add: NewLRUCache_def lru_ops recency_def nodes_def feq_def)
  from capacity_invariant [OF key_equality_string r] capacity_invariant [OF key_equality_feq rn]
    key_equality_string key_equality_feq r e rn en
  show ?thesis by simp
qed




section \<open>Get\<close>

text \<open>
  C4. \<^verbatim>\<open>Get\<close> of a key that is not in the cache returns the zero value and
  \<open>False\<close> and leaves the whole state as it was. \<^verbatim>\<open>Get\<close> of a key that is in the cache
  returns its stored value and \<open>True\<close> and moves its entry to the head of the recency
  list, the other entries keeping their order. In both cases the size, the map, the
  number of allocated entries and the set of cached pairs are unchanged.
\<close>

theorem Get_spec:
  "key_equality eq \<Longrightarrow> reachable eq cap c \<Longrightarrow>
     (map_index eq (cacheMap c) k = None \<longrightarrow> Get eq z k c = ((z, False), c)) \<and>
     (\<forall>a. map_index eq (cacheMap c) k = Some a \<longrightarrow>
        fst (Get eq z k c) = (value (store c ! a), True) \<and>
        map_of (recency c) k = Some (value (store c ! a)) \<and>
        recency (snd (Get eq z k c)) =
          (k, value (store c ! a)) # filter (\<lambda>p. fst p \<noteq> k) (recency c)) \<and>
     size_c (snd (Get eq z k c)) = size_c c \<and>
     cacheMap (snd (Get eq z k c)) = cacheMap c \<and>
     length (store (snd (Get eq z k c))) = length (store c) \<and>
     length (recency (snd (Get eq z k c))) = length (recency c) \<and>
     set (recency (snd (Get eq z k c))) = set (recency c)"
proof -
  assume ke: "key_equality eq" and "reachable eq cap c"
  then obtain as where w: "lru_wf eq c as" by (rule reachable_wf)
  show ?thesis
  proof (cases "map_index eq (cacheMap c) k")
    case None
    then show ?thesis by (simp add: Get_miss)
  next
    case (Some a)
    let ?c = "snd (Get eq z k c)"
    let ?g = "\<lambda>a. (key (store c ! a), value (store c ! a))"
    let ?g' = "\<lambda>a. (key (store ?c ! a), value (store ?c ! a))"
    note h = Get_hit [OF ke w Some, of z]
    from h have w': "lru_wf eq ?c (a # remove1 a as)" by simp
    have a: "a \<in> set as" "key (store c ! a) = k" "eq k k" using wf_map [OF ke w] Some by auto
    have d: "distinct as" using w by (rule wf_distinct)
    have inj: "\<forall>b\<in>set as. key (store c ! b) = key (store c ! a) \<longrightarrow> b = a"
      using wf_key_unique [OF w a(1)] a(2,3) by simp
    have "map ?g' (remove1 a as) = filter (\<lambda>p. fst p \<noteq> key (store c ! a)) (map ?g as)"
      using d a(1) inj by (rule remove1_filter_key) (use h in auto)
    then have r: "recency ?c = (k, value (store c ! a)) # filter (\<lambda>p. fst p \<noteq> k) (recency c)"
      using h a(2) by (simp add: wf_recency [OF w'] wf_recency [OF w])
    have "(k, value (store c ! a)) \<in> set (recency c)"
      using a by (auto simp: wf_recency [OF w])
    moreover have "\<forall>p\<in>set (recency c). fst p = k \<longrightarrow> snd p = value (store c ! a)"
      using inj a(2) by (auto simp: wf_recency [OF w])
    ultimately have m: "map_of (recency c) k = Some (value (store c ! a))"
      by (rule map_of_unique)
    have "length (recency ?c) = length (recency c)"
      using a(1) length_pos_if_in_set [OF a(1)]
      by (simp add: wf_recency [OF w'] wf_recency [OF w] length_remove1)
    moreover have "set (recency ?c) = set (recency c)"
      using a(1) d h by (auto simp: wf_recency [OF w'] wf_recency [OF w])
    ultimately show ?thesis using Some h r m by simp
  qed
qed

theorem Get_spec_witness:
  "key_equality ((=) :: string \<Rightarrow> string \<Rightarrow> bool) \<and> reachable (=) 3 cache_abc \<and>
   map_index (=) (cacheMap cache_abc) ''z'' = None \<and>
   Get (=) 0 ''z'' cache_abc = ((0, False), cache_abc) \<and>
   map_index (=) (cacheMap cache_abc) ''b'' = Some 1 \<and>
   fst (Get (=) 0 ''b'' cache_abc) = (2, True) \<and>
   map_of (recency cache_abc) ''b'' = Some 2 \<and>
   recency (snd (Get (=) 0 ''b'' cache_abc)) = [(''b'', 2), (''c'', 3), (''a'', 1)] \<and>
   size_c (snd (Get (=) 0 ''b'' cache_abc)) = 3"
proof -
  have z: "map_index (=) (cacheMap cache_abc) ''z'' = None"
    and b: "map_index (=) (cacheMap cache_abc) ''b'' = Some 1"
    and v: "value (store cache_abc ! 1) = 2" and s: "size_c cache_abc = 3"
    by (simp_all add: cache_abc_state)
  from Get_spec [OF key_equality_string cache_abc_reachable, of "''z''" 0]
    Get_spec [OF key_equality_string cache_abc_reachable, of "''b''" 0]
    key_equality_string cache_abc_reachable z b v s cache_abc_recency
  show ?thesis by simp
qed

text \<open>
  C7. \<^verbatim>\<open>Get\<close> of the key at the head of the recency list leaves the state, hence the
  recency order, unchanged; it returns the value of the head entry when the key is equal
  to itself. A second \<^verbatim>\<open>Get\<close> of any key right after a first one returns the same
  result and changes nothing.
\<close>

theorem Get_head_idempotent:
  "key_equality eq \<Longrightarrow> reachable eq cap c \<Longrightarrow>
     (\<forall>v rest. recency c = (k, v) # rest \<longrightarrow>
        snd (Get eq z k c) = c \<and> (eq k k \<longrightarrow> Get eq z k c = ((v, True), c))) \<and>
     Get eq z k (snd (Get eq z k c)) = (fst (Get eq z k c), snd (Get eq z k c)) \<and>
     recency (snd (Get eq z k (snd (Get eq z k c)))) = recency (snd (Get eq z k c))"
proof -
  assume ke: "key_equality eq" and "reachable eq cap c"
  then obtain as where w: "lru_wf eq c as" by (rule reachable_wf)
  have 1: "snd (Get eq z k c) = c \<and> (eq k k \<longrightarrow> Get eq z k c = ((v, True), c))"
    if "recency c = (k, v) # rest" for v rest
  proof -
    from that obtain a as' where as: "as = a # as'" "key (store c ! a) = k" "value (store c ! a) = v"
      by (auto simp: wf_recency [OF w])
    show ?thesis
    proof (cases "eq k k")
      case True
      with w as show ?thesis using Get_at_head [OF ke, of c a as' k z] by simp
    next
      case False
      then have "map_index eq (cacheMap c) k = None"
        using wf_map [OF ke w, of k] by (cases "map_index eq (cacheMap c) k") auto
      with False show ?thesis by (simp add: Get_miss)
    qed
  qed
  have 2: "Get eq z k (snd (Get eq z k c)) = (fst (Get eq z k c), snd (Get eq z k c))"
  proof (cases "map_index eq (cacheMap c) k")
    case None
    then show ?thesis by (simp add: Get_miss)
  next
    case (Some a)
    note h = Get_hit [OF ke w Some, of z]
    have "key (store c ! a) = k" "eq k k" using wf_map [OF ke w] Some by auto
    with h have "key (store (snd (Get eq z k c)) ! a) = k" by simp
    with h \<open>eq k k\<close> Get_at_head [OF ke, of "snd (Get eq z k c)" a "remove1 a as" k z]
    show ?thesis by simp
  qed
  from 1 2 show ?thesis by simp
qed

theorem Get_head_idempotent_witness:
  "key_equality ((=) :: string \<Rightarrow> string \<Rightarrow> bool) \<and> reachable (=) 3 cache_abc \<and>
   recency cache_abc = (''c'', 3) # [(''b'', 2), (''a'', 1)] \<and>
   Get (=) 0 ''c'' cache_abc = ((3, True), cache_abc) \<and>
   Get (=) 0 ''a'' (snd (Get (=) 0 ''a'' cache_abc)) = ((1, True), snd (Get (=) 0 ''a'' cache_abc)) \<and>
   key_equality feq \<and> reachable feq 1 cache_nan1 \<and> recency cache_nan1 = (NaN, 1) # [] \<and>
   snd (Get feq 0 NaN cache_nan1) = cache_nan1"
proof -
  have f: "fst (Get (=) 0 ''a'' cache_abc) = (1, True)"
    by (simp add: cache_abc_state lru_ops)
  have n: "recency cache_nan1 = (NaN, 1) # []"
    by (simp add: cache_nan1_state recency_def nodes_def)
  from Get_head_idempotent [OF key_equality_string cache_abc_reachable, of "''c''" 0]
    cache_abc_recency
  have 1: "Get (=) 0 ''c'' cache_abc = ((3, True), cache_abc)" by simp
  from Get_head_idempotent [OF key_equality_string cache_abc_reachable, of "''a''" 0] f
  have 2: "Get (=) 0 ''a'' (snd (Get (=) 0 ''a'' cache_abc)) =
      ((1, True), snd (Get (=) 0 ''a'' cache_abc))" by simp
  from Get_head_idempotent [OF key_equality_feq cache_nan1_reachable, of NaN 0] n
  have 3: "snd (Get feq 0 NaN cache_nan1) = cache_nan1" by simp
  from key_equality_string cache_abc_reachable cache_abc_recency 1 2
    key_equality_feq cache_nan1_reachable n 3
  show ?thesis by simp
qed

section \<open>Put\<close>

text \<open>
  C5. \<^verbatim>\<open>Put\<close> of a key that is in the cache writes the value into the entry the map
  already points to and moves that entry to the head of the recency list. No entry is
  allocated or evicted, the size and the map are unchanged, and the other entries keep
  their keys, values and order.
\<close>

theorem Put_present_key:
  "key_equality eq \<Longrightarrow> reachable eq cap c \<Longrightarrow> map_index eq (cacheMap c) k = Some a \<Longrightarrow>
     recency (Put eq k v c) = (k, v) # filter (\<lambda>p. fst p \<noteq> k) (recency c) \<and>
     key (store (Put eq k v c) ! a) = k \<and> value (store (Put eq k v c) ! a) = v \<and>
     head (Put eq k v c) = Some a \<and>
     length (store (Put eq k v c)) = length (store c) \<and>
     cacheMap (Put eq k v c) = cacheMap c \<and>
     size_c (Put eq k v c) = size_c c \<and>
     length (recency (Put eq k v c)) = length (recency c) \<and>
     fst ` set (recency (Put eq k v c)) = fst ` set (recency c)"
proof -
  assume ke: "key_equality eq" and re: "reachable eq cap c"
    and hit: "map_index eq (cacheMap c) k = Some a"
  from ke re obtain as where w: "lru_wf eq c as" by (rule reachable_wf)
  let ?c = "Put eq k v c"
  let ?g = "\<lambda>a. (key (store c ! a), value (store c ! a))"
  let ?g' = "\<lambda>a. (key (store ?c ! a), value (store ?c ! a))"
  note h = Put_hit [OF ke w hit, of v]
  from h have w': "lru_wf eq ?c (a # remove1 a as)" by simp
  have a: "a \<in> set as" "key (store c ! a) = k" "eq k k" using wf_map [OF ke w] hit by auto
  have d: "distinct as" using w by (rule wf_distinct)
  have inj: "\<forall>b\<in>set as. key (store c ! b) = key (store c ! a) \<longrightarrow> b = a"
    using wf_key_unique [OF w a(1)] a(2,3) by simp
  have "map ?g' (remove1 a as) = filter (\<lambda>p. fst p \<noteq> key (store c ! a)) (map ?g as)"
    using d a(1) inj by (rule remove1_filter_key) (use h in auto)
  then have r: "recency ?c = (k, v) # filter (\<lambda>p. fst p \<noteq> k) (recency c)"
    using h a(2) by (simp add: wf_recency [OF w'] wf_recency [OF w])
  have l: "length (recency ?c) = length (recency c)"
    using a(1) length_pos_if_in_set [OF a(1)]
    by (simp add: wf_recency [OF w'] wf_recency [OF w] length_remove1)
  have s: "set (a # remove1 a as) = set as" using a(1) d by auto
  have "fst ` set (recency ?c) = (\<lambda>b. key (store ?c ! b)) ` set (a # remove1 a as)"
    unfolding wf_recency [OF w'] by (simp add: image_image del: list.set set_map) (simp add: image_image)
  also have "\<dots> = (\<lambda>b. key (store c ! b)) ` set as" unfolding s using h by simp
  also have "\<dots> = fst ` set (recency c)" unfolding wf_recency [OF w] by (simp add: image_image)
  finally have ks: "fst ` set (recency ?c) = fst ` set (recency c)" .
  have "head ?c = Some a" using wf_head [OF w'] by simp
  then show ?thesis using r l ks h a(2) by simp
qed

theorem Put_present_key_witness:
  "key_equality ((=) :: string \<Rightarrow> string \<Rightarrow> bool) \<and> reachable (=) 3 cache_abc \<and>
   map_index (=) (cacheMap cache_abc) ''a'' = Some 0 \<and>
   recency (Put (=) ''a'' 10 cache_abc) = [(''a'', 10), (''c'', 3), (''b'', 2)] \<and>
   size_c (Put (=) ''a'' 10 cache_abc) = 3 \<and>
   length (store (Put (=) ''a'' 10 cache_abc)) = 3"
proof -
  have a: "map_index (=) (cacheMap cache_abc) ''a'' = Some 0" and s: "size_c cache_abc = 3"
    "length (store cache_abc) = 3"
    by (simp_all add: cache_abc_state)
  from Put_present_key [OF key_equality_string cache_abc_reachable a, of 10]
    key_equality_string cache_abc_reachable a s cache_abc_recency
  show ?thesis by simp
qed







text \<open>
  The specification states C9 for every key: \<^verbatim>\<open>Get(k)\<close> returns \<open>(v, true)\<close> right
  after \<^verbatim>\<open>Put(k, v)\<close>. After \<^verbatim>\<open>Put(NaN, 1)\<close> on a new cache the entry is at the
  head of the list, and \<^verbatim>\<open>Get(NaN)\<close> returns the zero value and \<open>False\<close>.
\<close>

theorem Get_after_Put_counterexample:
  "reachable feq 1 (projr (NewLRUCache 1) :: (fkey, int) LRUCache) \<and>
   recency (Put feq NaN (1::int) (projr (NewLRUCache 1))) = [(NaN, 1)] \<and>
   map_index feq (cacheMap (Put feq NaN (1::int) (projr (NewLRUCache 1)))) NaN = None \<and>
   Get feq (0::int) NaN (Put feq NaN 1 (projr (NewLRUCache 1))) =
     ((0, False), Put feq NaN 1 (projr (NewLRUCache 1)))"
proof -
  have "reachable feq 1 (projr (NewLRUCache 1) :: (fkey, int) LRUCache)"
    by (rule reachable.init) (simp add: NewLRUCache_def)
  moreover have "recency cache_nan1 = [(NaN, 1)]"
    by (simp add: cache_nan1_state recency_def nodes_def)
  moreover have "map_index feq (cacheMap cache_nan1) NaN = None"
    by (simp add: cache_nan1_state feq_def)
  moreover have "Get feq 0 NaN cache_nan1 = ((0, False), cache_nan1)"
    by (simp add: cache_nan1_state Get_def feq_def)
  ultimately show ?thesis unfolding cache_nan1_def by blast
qed

text \<open>
  C9, amended. Right after \<^verbatim>\<open>Put k v\<close>, in every reachable state and for every
  capacity, the entry with \<open>k\<close> and \<open>v\<close> is at the head of the recency list: the entry
  that \<^verbatim>\<open>Put\<close> wrote is never the one it evicts. When \<open>k\<close> is equal to itself, \<open>k\<close> is
  found in the map and \<^verbatim>\<open>Get k\<close> returns \<open>v\<close> and \<open>True\<close> and changes nothing; when it is
  not, \<^verbatim>\<open>Get k\<close> returns the zero value and \<open>False\<close>.
\<close>

theorem Get_after_Put:
  "key_equality eq \<Longrightarrow> reachable eq cap c \<Longrightarrow>
     hd (recency (Put eq k v c)) = (k, v) \<and>
     (eq k k \<longrightarrow> map_index eq (cacheMap (Put eq k v c)) k \<noteq> None \<and>
                Get eq z k (Put eq k v c) = ((v, True), Put eq k v c)) \<and>
     (\<not> eq k k \<longrightarrow> map_index eq (cacheMap (Put eq k v c)) k = None \<and>
                Get eq z k (Put eq k v c) = ((z, False), Put eq k v c))"
proof -
  assume ke: "key_equality eq" and re: "reachable eq cap c"
  then obtain as where w: "lru_wf eq c as" and i: "capacity c = cap" "size_c c \<le> cap" "1 \<le> cap"
    by (rule reachable_wf)
  have "\<exists>a as'. lru_wf eq (Put eq k v c) (a # as') \<and> key (store (Put eq k v c) ! a) = k \<and>
          value (store (Put eq k v c) ! a) = v"
  proof (cases "map_index eq (cacheMap c) k")
    case None
    with i Put_miss [OF ke w None, of v] show ?thesis by auto
  next
    case (Some a)
    have "key (store c ! a) = k" using wf_map [OF ke w] Some by auto
    with Put_hit [OF ke w Some, of v] show ?thesis by auto
  qed
  then obtain a as' where w': "lru_wf eq (Put eq k v c) (a # as')"
    and a: "key (store (Put eq k v c) ! a) = k" "value (store (Put eq k v c) ! a) = v" by blast
  have 1: "hd (recency (Put eq k v c)) = (k, v)" using a by (simp add: wf_recency [OF w'])
  have 2: "map_index eq (cacheMap (Put eq k v c)) k \<noteq> None \<and>
           Get eq z k (Put eq k v c) = ((v, True), Put eq k v c)" if "eq k k"
  proof -
    have "map_index eq (cacheMap (Put eq k v c)) k = Some a"
      using wf_map [OF ke w', of k a] a that by simp
    then show ?thesis using Get_at_head [OF ke w' a(1) that, of z] a by simp
  qed
  have 3: "map_index eq (cacheMap (Put eq k v c)) k = None \<and>
           Get eq z k (Put eq k v c) = ((z, False), Put eq k v c)" if "\<not> eq k k"
  proof -
    have "map_index eq (cacheMap (Put eq k v c)) k = None"
      using wf_map [OF ke w', of k] that by (cases "map_index eq (cacheMap (Put eq k v c)) k") auto
    then show ?thesis by (simp add: Get_miss)
  qed
  from 1 2 3 show ?thesis by blast
qed

theorem Get_after_Put_witness:
  "key_equality ((=) :: string \<Rightarrow> string \<Rightarrow> bool) \<and> reachable (=) 3 cache_abc \<and>
   Get (=) 0 ''d'' (Put (=) ''d'' 4 cache_abc) = ((4, True), Put (=) ''d'' 4 cache_abc) \<and>
   reachable (=) 1 (Put (=) ''x'' (7::int) (projr (NewLRUCache 1))) \<and>
   Get (=) 0 ''y'' (Put (=) ''y'' 8 (Put (=) ''x'' (7::int) (projr (NewLRUCache 1)))) =
     ((8, True), Put (=) ''y'' 8 (Put (=) ''x'' 7 (projr (NewLRUCache 1)))) \<and>
   key_equality feq \<and> reachable feq 1 cache_nan \<and> \<not> feq NaN NaN \<and>
   hd (recency (Put feq NaN 9 cache_nan)) = (NaN, 9) \<and>
   Get feq 0 NaN (Put feq NaN 9 cache_nan) = ((0, False), Put feq NaN 9 cache_nan)"
proof -
  have r: "reachable (=) 1 (Put (=) ''x'' (7::int) (projr (NewLRUCache 1)))"
    by (intro reachable.put, rule reachable.init) (simp add: NewLRUCache_def)
  have n: "\<not> feq NaN NaN" by (simp add: feq_def)
  from Get_after_Put [OF key_equality_string cache_abc_reachable, of "''d''" 4 0]
  have 1: "Get (=) 0 ''d'' (Put (=) ''d'' 4 cache_abc) = ((4, True), Put (=) ''d'' 4 cache_abc)"
    by simp
  from Get_after_Put [OF key_equality_string r, of "''y''" 8 0]
  have 2: "Get (=) 0 ''y'' (Put (=) ''y'' 8 (Put (=) ''x'' (7::int) (projr (NewLRUCache 1)))) =
     ((8, True), Put (=) ''y'' 8 (Put (=) ''x'' 7 (projr (NewLRUCache 1))))"
    by simp
  from Get_after_Put [OF key_equality_feq cache_nan_reachable, of NaN 9 0] n
  have 3: "hd (recency (Put feq NaN 9 cache_nan)) = (NaN, 9)"
    and 4: "Get feq 0 NaN (Put feq NaN 9 cache_nan) = ((0, False), Put feq NaN 9 cache_nan)"
    by simp_all
  from key_equality_string cache_abc_reachable 1 r 2 key_equality_feq cache_nan_reachable n 3 4
  show ?thesis by (intro conjI)
qed

end
